theory Spec2Isabelle
  imports Main "HOL-Library.Word"
begin

unbundle bit_operations_syntax

section \<open>Python values and failures\<close>

text \<open>
  A Python \<open>str\<close> is a sequence of Unicode code points. The glyph catalogue of
  \<open>lcds.py\<close> holds code points above 255, so a one-character string is modelled by
  its code point (\<open>ord(ch)\<close>) and a string by the list of its code points.
\<close>

type_synonym pychar = nat
type_synonym pystr = "pychar list"

datatype error = IndexError | ZeroDivisionError | ValueError | TypeError

text \<open>Where Python's \<open>xs[i]\<close> lands in a list of \<open>n\<close> elements: an index from
  \<open>-n\<close> up to \<open>-1\<close> counts from the end; outside \<open>-n .. n - 1\<close> there is no
  position and Python raises \<open>IndexError\<close>.\<close>

definition py_pos :: "nat \<Rightarrow> int \<Rightarrow> nat option" where
  "py_pos n i =
     (if 0 \<le> i \<and> i < int n then Some (nat i)
      else if - int n \<le> i \<and> i < 0 then Some (nat (int n + i))
      else None)"


definition py_store :: "'a list \<Rightarrow> int \<Rightarrow> 'a \<Rightarrow> error + 'a list" where
  "py_store xs i v =
     (case py_pos (length xs) i of None \<Rightarrow> Inl IndexError | Some j \<Rightarrow> Inr (xs[j := v]))"

text \<open>The loop \<open>for i, ch in enumerate(text): buf[start + i] = ch\<close>, and with a constant
  text the loop \<open>for i in range(start, start + cols): buf[i] = " "\<close>.\<close>

fun store_from :: "'a list \<Rightarrow> int \<Rightarrow> 'a list \<Rightarrow> error + 'a list" where
  "store_from b k [] = Inr b"
| "store_from b k (ch # t) =
     (case py_store b k ch of
        Inl e \<Rightarrow> Inl e
      | Inr b' \<Rightarrow> store_from b' (k + 1) t)"

section \<open>The buffered screen (lcds.py)\<close>

subsection \<open>State\<close>

text \<open>The calls a buffered screen makes on its driver, in the order made.\<close>

datatype lcd_call =
    Create_char int "int list"
  | Set_cursor int int
  | Write_char int

text \<open>\<open>DynamicCharDef\<close>: an 8-row pattern and the fallback character.\<close>

record dynamic_char_def =
  pattern :: "int list"
  alt :: pystr

text \<open>
  The object \<open>LCDS\<close>: the configuration (\<open>cols\<close>, \<open>rows\<close>, \<open>use_dynamic_chars\<close>),
  the two cell arrays, the remembered line of \<open>puts\<close>, the glyph cache, and the calls
  made on the driver \<open>self._lcd\<close> so far.
\<close>

record lcds =
  cols :: int
  rows :: int
  use_dynamic_chars :: bool
  buf :: "pychar list"
  shadow :: "pychar list"
  puts_line :: int
  dyn_char_to_slot :: "pychar \<rightharpoonup> nat"
  dyn_slot_to_char :: "pychar option list"
  dyn_used_mask :: int
  dyn_rotate_index :: nat
  lcd_calls :: "lcd_call list"

text \<open>\<open>LCDS.__init__\<close> with an explicit configuration. \<open>[" "] * size\<close> is empty for a
  size below 1, as \<open>replicate (nat size)\<close> is.\<close>

definition LCDS_init :: "int \<Rightarrow> int \<Rightarrow> bool \<Rightarrow> lcds" where
  "LCDS_init c r dyn =
     \<lparr> cols = c, rows = r, use_dynamic_chars = dyn,
       buf = replicate (nat (c * r)) 32,
       shadow = replicate (nat (c * r)) 0,
       puts_line = 0,
       dyn_char_to_slot = Map.empty,
       dyn_slot_to_char = replicate 8 None,
       dyn_used_mask = 0,
       dyn_rotate_index = 0,
       lcd_calls = [] \<rparr>"

subsection \<open>Writing into the buffer\<close>



text \<open>\<open>text[:max_len]\<close> is reached with \<open>max_len > 0\<close> only (\<open>col < cols\<close>), where the
  slice is \<open>take\<close>.\<close>

definition write_at :: "lcds \<Rightarrow> int \<Rightarrow> int \<Rightarrow> pystr \<Rightarrow> error + lcds" where
  "write_at s col row text =
     (if row < 0 \<or> row \<ge> rows s then Inr s
      else let col = (if col < 0 then 0 else col) in
        if col \<ge> cols s then Inr s
        else if text = [] then Inr s
        else let max_len = cols s - col;
                 text = take (nat max_len) text;
                 start = row * cols s + col
             in case store_from (buf s) start text of
                  Inl e \<Rightarrow> Inl e
                | Inr b \<Rightarrow> Inr (s\<lparr>buf := b\<rparr>))"



subsection \<open>The glyph catalogue\<close>

text \<open>The helper \<open>p\<close> of \<open>_default_dynamic_charset\<close>: eight rows, each cut to 5 bits.\<close>

definition p :: "int list \<Rightarrow> error + int list" where
  "p rs = (if length rs \<noteq> 8 then Inl ValueError else Inr (map (\<lambda>r. r AND 0x1F) rs))"

text \<open>
  The catalogue, keyed by code point, in the order of the source: the Polish letters,
  then plus-minus (177), the right guillemet (187), the degree sign (176) and the
  backslash (92). Each pattern is written as \<open>p\<close> returns it (\<open>p\<close> changes none of them,
  lemma \<open>p_catalogue\<close>).
\<close>

definition default_dynamic_charset :: "(pychar \<times> dynamic_char_def) list" where
  "default_dynamic_charset =
    [
         (261, \<lparr>pattern = [0, 14, 1, 15, 17, 15, 2, 1], alt = [97]\<rparr>),
         (260, \<lparr>pattern = [14, 17, 17, 31, 17, 17, 2, 1], alt = [65]\<rparr>),
         (263, \<lparr>pattern = [2, 4, 14, 16, 16, 17, 14, 0], alt = [99]\<rparr>),
         (262, \<lparr>pattern = [2, 4, 14, 17, 16, 17, 14, 0], alt = [67]\<rparr>),
         (281, \<lparr>pattern = [0, 14, 17, 31, 16, 14, 2, 1], alt = [101]\<rparr>),
         (280, \<lparr>pattern = [31, 16, 28, 16, 16, 31, 2, 1], alt = [69]\<rparr>),
         (322, \<lparr>pattern = [12, 4, 6, 4, 12, 4, 14, 0], alt = [108]\<rparr>),
         (321, \<lparr>pattern = [8, 8, 10, 12, 24, 8, 15, 0], alt = [76]\<rparr>),
         (324, \<lparr>pattern = [2, 4, 22, 25, 17, 17, 17, 0], alt = [110]\<rparr>),
         (323, \<lparr>pattern = [2, 21, 17, 25, 21, 19, 17, 0], alt = [78]\<rparr>),
         (243, \<lparr>pattern = [2, 4, 14, 17, 17, 17, 14, 0], alt = [111]\<rparr>),
         (211, \<lparr>pattern = [2, 4, 14, 17, 17, 17, 14, 0], alt = [79]\<rparr>),
         (347, \<lparr>pattern = [2, 4, 14, 16, 14, 1, 30, 0], alt = [115]\<rparr>),
         (346, \<lparr>pattern = [2, 4, 15, 16, 30, 1, 30, 0], alt = [83]\<rparr>),
         (380, \<lparr>pattern = [2, 4, 31, 2, 4, 8, 31, 0], alt = [122]\<rparr>),
         (379, \<lparr>pattern = [2, 4, 31, 2, 4, 8, 31, 0], alt = [90]\<rparr>),
         (378, \<lparr>pattern = [4, 0, 31, 2, 4, 8, 31, 0], alt = [122]\<rparr>),
         (377, \<lparr>pattern = [4, 0, 31, 2, 4, 8, 31, 0], alt = [90]\<rparr>),
         (177, \<lparr>pattern = [4, 4, 31, 4, 4, 0, 31, 0], alt = [32]\<rparr>),
         (187, \<lparr>pattern = [0, 20, 10, 5, 10, 20, 0, 0], alt = [62]\<rparr>),
         (176, \<lparr>pattern = [6, 9, 9, 6, 0, 0, 0, 0], alt = [42]\<rparr>),
         (92, \<lparr>pattern = [16, 8, 4, 2, 1, 0, 0, 0], alt = [47]\<rparr>)]"


subsection \<open>The driver as the screen sees it\<close>




subsection \<open>The glyph cache\<close>







subsection \<open>Refresh\<close>




subsection \<open>Sequences of operations\<close>




text \<open>A sequence of \<open>write_at\<close> calls, each given as \<open>(col, row, text)\<close>.\<close>

fun write_at_all :: "lcds \<Rightarrow> (int \<times> int \<times> pystr) list \<Rightarrow> error + lcds" where
  "write_at_all s [] = Inr s"
| "write_at_all s ((col, row, text) # calls) =
     (case write_at s col row text of
        Inl e \<Rightarrow> Inl e
      | Inr s' \<Rightarrow> write_at_all s' calls)"

text \<open>The cells one \<open>write_at(col, row, text)\<close> is said to write: on a row of the
  screen, the columns from \<open>col\<close> (a negative one counted as 0) up to
  \<open>min(col + len(text), cols)\<close>; no cell when the row is off the screen.\<close>

definition written :: "int \<Rightarrow> int \<Rightarrow> int \<Rightarrow> int \<Rightarrow> pystr \<Rightarrow> nat \<Rightarrow> bool" where
  "written cs rs col row text i \<longleftrightarrow>
     0 \<le> row \<and> row < rs \<and>
     row * cs + max 0 col \<le> int i \<and>
     int i < row * cs + min (max 0 col + int (length text)) cs"


subsection \<open>Where the line-oriented write puts its characters\<close>








text \<open>The first slot of a list whose mask bit is clear.\<close>

definition first_free :: "lcds \<Rightarrow> nat list \<Rightarrow> nat option" where
  "first_free s slots = find (\<lambda>k. \<not> bit (dyn_used_mask s) k) slots"



text \<open>The state a constructed screen keeps: a positive geometry (the specification's
  data model), both arrays of \<open>cols * rows\<close> cells, the remembered line a row, eight
  entries in the slot table.\<close>

definition lcds_wf :: "lcds \<Rightarrow> bool" where
  "lcds_wf s \<longleftrightarrow>
     0 < cols s \<and> 0 < rows s \<and>
     length (buf s) = nat (cols s * rows s) \<and>
     length (shadow s) = length (buf s) \<and>
     0 \<le> puts_line s \<and> puts_line s < rows s \<and>
     length (dyn_slot_to_char s) = 8"

section \<open>Properties of the buffer operations\<close>

lemma store_from_closed:
  "0 \<le> k \<Longrightarrow> nat k + length t \<le> length b \<Longrightarrow>
   store_from b k t = Inr (take (nat k) b @ t @ drop (nat k + length t) b)"
proof (induction t arbitrary: b k)
  case Nil
  then show ?case by simp
next
  case (Cons ch t)
  have lt: "nat k < length b" using Cons.prems by simp
  have st: "py_store b k ch = Inr (b[nat k := ch])"
    using Cons.prems lt by (simp add: py_store_def py_pos_def)
  have k1: "nat (k + 1) = Suc (nat k)" using Cons.prems by simp
  have "store_from (b[nat k := ch]) (k + 1) t =
        Inr (take (nat (k + 1)) (b[nat k := ch]) @ t @
             drop (nat (k + 1) + length t) (b[nat k := ch]))"
    using Cons.prems by (intro Cons.IH) simp_all
  also have "take (nat (k + 1)) (b[nat k := ch]) = take (nat k) b @ [ch]"
    using lt by (simp add: k1 take_Suc_conv_app_nth)
  also have "drop (nat (k + 1) + length t) (b[nat k := ch]) =
             drop (nat k + length (ch # t)) b"
    by (simp add: k1)
  finally show ?case using st by simp
qed

lemma splice_nth:
  "st + length t \<le> length b \<Longrightarrow> i < length b \<Longrightarrow>
   (take st b @ t @ drop (st + length t) b) ! i =
     (if st \<le> i \<and> i < st + length t then t ! (i - st) else b ! i)"
  by (auto simp: nth_append min_def)

lemma splice_length:
  "st + length t \<le> length b \<Longrightarrow> length (take st b @ t @ drop (st + length t) b) = length b"
  by simp

lemma row_cell_bound:
  fixes cs rs row c :: int
  assumes "0 < cs" "0 \<le> row" "row < rs" "0 \<le> c" "c \<le> cs"
  shows "0 \<le> row * cs + c" "row * cs + c \<le> cs * rs"
proof -
  have "0 \<le> row * cs" by (rule mult_nonneg_nonneg) (use assms in simp_all)
  then show "0 \<le> row * cs + c" using assms by simp
  have "row + 1 \<le> rs" using assms by simp
  then have "(row + 1) * cs \<le> rs * cs" using assms(1) by (intro mult_right_mono) simp_all
  then show "row * cs + c \<le> cs * rs" using assms by (simp add: algebra_simps)
qed

lemma write_at_closed:
  assumes wf: "lcds_wf s"
  shows "\<exists>b. write_at s col row text = Inr (s\<lparr>buf := b\<rparr>) \<and> length b = length (buf s) \<and>
     (\<forall>i<length (buf s). b ! i =
        (if written (cols s) (rows s) col row text i
         then text ! nat (int i - (row * cols s + max 0 col)) else buf s ! i))"
proof -
  let ?cs = "cols s" let ?rs = "rows s"
  have cs: "0 < ?cs" and rs: "0 < ?rs" and len: "length (buf s) = nat (?cs * ?rs)"
    using wf by (simp_all add: lcds_wf_def)
  let ?c = "max 0 col"
  show ?thesis
  proof (cases "row < 0 \<or> ?rs \<le> row \<or> ?cs \<le> ?c \<or> text = []")
    case True
    then have w: "write_at s col row text = Inr s"
      by (auto simp: write_at_def Let_def max_def)
    have nw: "\<not> written ?cs ?rs col row text i" for i
      using True by (auto simp: written_def)
    show ?thesis
      by (rule exI[of _ "buf s"]) (simp add: w nw)
  next
    case False
    then have r0: "0 \<le> row" and r1: "row < ?rs" and c1: "?c < ?cs" and tn: "text \<noteq> []"
      by auto
    define t where "t = take (nat (?cs - ?c)) text"
    define start where "start = row * ?cs + ?c"
    define st where "st = nat start"
    have s0: "0 \<le> start" unfolding start_def
      by (rule row_cell_bound(1)[OF cs r0 r1]) (use c1 in simp_all)
    have "length t = min (length text) (nat (?cs - ?c))" by (simp add: t_def)
    then have lt: "int (length t) = min (int (length text)) (?cs - ?c)"
      using c1 by linarith
    have "start + int (length t) \<le> row * ?cs + ?cs" unfolding lt start_def by simp
    also have "\<dots> \<le> ?cs * ?rs" using row_cell_bound(2)[OF cs r0 r1, of ?cs] cs by simp
    finally have fit: "st + length t \<le> length (buf s)"
      unfolding st_def using s0 len by linarith
    define b where "b = take st (buf s) @ t @ drop (st + length t) (buf s)"
    have sf: "store_from (buf s) start t = Inr b"
      unfolding b_def st_def by (rule store_from_closed[OF s0 fit[unfolded st_def]])
    define c where "c = ?c"
    have cc: "(if col < 0 then 0 else col) = c" by (simp add: max_def c_def)
    have nc: "\<not> ?cs \<le> c" using c1 unfolding c_def by linarith
    have sf': "store_from (buf s) (row * ?cs + c) (take (nat (?cs - c)) text) = Inr b"
      using sf by (simp add: t_def start_def c_def)
    have w: "write_at s col row text = Inr (s\<lparr>buf := b\<rparr>)"
      unfolding write_at_def Let_def cc using r0 r1 nc tn sf'
      by simp
    have lb: "length b = length (buf s)" unfolding b_def by (rule splice_length[OF fit])
    have cell: "b ! i = (if written ?cs ?rs col row text i
         then text ! nat (int i - (row * ?cs + ?c)) else buf s ! i)"
      if i: "i < length (buf s)" for i
    proof -
      have e: "row * ?cs + min (?c + int (length text)) ?cs = start + int (length t)"
        unfolding lt start_def by linarith
      have "written ?cs ?rs col row text i \<longleftrightarrow>
            start \<le> int i \<and> int i < start + int (length t)"
        unfolding written_def e using r0 r1 by (simp add: start_def)
      also have "\<dots> \<longleftrightarrow> st \<le> i \<and> i < st + length t"
        unfolding st_def using s0 by linarith
      finally have wr: "written ?cs ?rs col row text i \<longleftrightarrow> st \<le> i \<and> i < st + length t" .
      have bi: "b ! i = (if st \<le> i \<and> i < st + length t then t ! (i - st) else buf s ! i)"
        unfolding b_def by (rule splice_nth[OF fit i])
      show ?thesis
      proof (cases "st \<le> i \<and> i < st + length t")
        case True
        then have "i - st < length t" by linarith
        then have "t ! (i - st) = text ! (i - st)" unfolding t_def by simp
        moreover have "i - st = nat (int i - start)" unfolding st_def using True s0 by linarith
        ultimately show ?thesis using bi wr True by (simp add: start_def)
      next
        case False
        then have "\<not> written ?cs ?rs col row text i" using wr by blast
        moreover have "b ! i = buf s ! i" using bi False by (simp only: if_False)
        ultimately show ?thesis by simp
      qed
    qed
    show ?thesis
      by (rule exI[of _ b]) (use w lb cell in simp)
  qed
qed


lemma find_snoc:
  "find P (ys @ [x]) = (case find P ys of Some y \<Rightarrow> Some y | None \<Rightarrow> if P x then Some x else None)"
  by (induction ys) auto

text \<open>
  C9. After any sequence of \<open>write_at\<close> calls on a constructed screen (the calls never
  fail and change nothing but the cell buffer), a cell that lies in no call's written
  range keeps its previous character, and a cell in some range holds the character the
  last such call placed there. The written range of a call stays on its own row, is
  empty for a row off the screen, and starts at column 0 for a negative column.
\<close>

theorem write_at_frame:
  assumes wf: "lcds_wf s"
  shows "\<exists>b. write_at_all s calls = Inr (s\<lparr>buf := b\<rparr>) \<and> length b = length (buf s) \<and>
     (\<forall>i<length (buf s). b ! i =
        (case find (\<lambda>(col, row, text). written (cols s) (rows s) col row text i) (rev calls) of
           None \<Rightarrow> buf s ! i
         | Some (col, row, text) \<Rightarrow> text ! nat (int i - (row * cols s + max 0 col))))"
  using wf
proof (induction calls arbitrary: s)
  case Nil
  show ?case by (rule exI[of _ "buf s"]) simp
next
  case (Cons call calls)
  obtain col row tx where call: "call = (col, row, tx)" by (cases call)
  let ?P = "\<lambda>i (col, row, text). written (cols s) (rows s) col row text i"
  from write_at_closed[OF Cons.prems, of col row tx]
  obtain b1 where w1: "write_at s col row tx = Inr (s\<lparr>buf := b1\<rparr>)"
    and l1: "length b1 = length (buf s)"
    and c1: "\<And>i. i < length (buf s) \<Longrightarrow> b1 ! i =
        (if ?P i call then tx ! nat (int i - (row * cols s + max 0 col)) else buf s ! i)"
    unfolding call by auto
  have wf1: "lcds_wf (s\<lparr>buf := b1\<rparr>)"
    using Cons.prems l1 by (simp add: lcds_wf_def)
  have "\<exists>b2. write_at_all (s\<lparr>buf := b1\<rparr>) calls = Inr (s\<lparr>buf := b2\<rparr>) \<and>
      length b2 = length b1 \<and>
      (\<forall>i<length b1. b2 ! i =
        (case find (?P i) (rev calls) of
           None \<Rightarrow> b1 ! i
         | Some (col, row, text) \<Rightarrow> text ! nat (int i - (row * cols s + max 0 col))))"
    using Cons.IH[OF wf1] by (simp cong: option.case_cong)
  then obtain b2 where w2: "write_at_all (s\<lparr>buf := b1\<rparr>) calls = Inr (s\<lparr>buf := b2\<rparr>)"
    and l2: "length b2 = length b1"
    and c2: "\<And>i. i < length b1 \<Longrightarrow> b2 ! i =
        (case find (?P i) (rev calls) of
           None \<Rightarrow> b1 ! i
         | Some (col, row, text) \<Rightarrow> text ! nat (int i - (row * cols s + max 0 col)))"
    by blast
  have run: "write_at_all s (call # calls) = Inr (s\<lparr>buf := b2\<rparr>)"
    by (simp add: call w1 w2)
  have cell: "b2 ! i =
        (case find (?P i) (rev (call # calls)) of
           None \<Rightarrow> buf s ! i
         | Some (col, row, text) \<Rightarrow> text ! nat (int i - (row * cols s + max 0 col)))"
    if i: "i < length (buf s)" for i
  proof (cases "find (?P i) (rev calls)")
    case None
    then have "b2 ! i = b1 ! i" using c2[of i] i l1 by simp
    then show ?thesis using None c1[OF i] by (simp add: find_snoc call)
  next
    case (Some y)
    then show ?thesis using c2[of i] i l1 by (simp add: find_snoc)
  qed
  show ?case
    by (rule exI[of _ b2]) (use run l1 l2 cell in simp)
qed

theorem write_at_frame_witness:
  "lcds_wf (LCDS_init 4 2 True) \<and>
   (\<exists>b. write_at_all (LCDS_init 4 2 True) [(2, 0, [65, 66, 67]), (-1, 1, [88])] =
          Inr ((LCDS_init 4 2 True)\<lparr>buf := b\<rparr>) \<and>
        b ! 2 = 65 \<and> b ! 3 = 66 \<and> b ! 4 = 88 \<and> b ! 5 = 32)"
proof -
  let ?s = "LCDS_init 4 2 True"
  have wf: "lcds_wf ?s" by (simp add: lcds_wf_def LCDS_init_def)
  from write_at_frame[OF wf, of "[(2, 0, [65, 66, 67]), (-1, 1, [88])]"]
  obtain b where r: "write_at_all ?s [(2, 0, [65, 66, 67]), (-1, 1, [88])] = Inr (?s\<lparr>buf := b\<rparr>)"
    and c: "\<And>i. i < length (buf ?s) \<Longrightarrow> b ! i =
        (case find (\<lambda>(col, row, text). written (cols ?s) (rows ?s) col row text i)
                (rev [(2, 0, [65, 66, 67]), (-1, 1, [88])]) of
           None \<Rightarrow> buf ?s ! i
         | Some (col, row, text) \<Rightarrow> text ! nat (int i - (row * cols ?s + max 0 col)))"
    by auto
  have "b ! 2 = 65" using c[of 2] by (simp add: LCDS_init_def written_def)
  moreover have "b ! 3 = 66" using c[of 3] by (simp add: LCDS_init_def written_def)
  moreover have "b ! 4 = 88" using c[of 4] by (simp add: LCDS_init_def written_def)
  moreover have "b ! 5 = 32" using c[of 5] by (simp add: LCDS_init_def written_def)
  ultimately show ?thesis using wf r by blast
qed

subsection \<open>Refresh always returns, and is idempotent\<close>



lemma p_catalogue:
  "(ch, d) \<in> set default_dynamic_charset \<Longrightarrow> p (pattern d) = Inr (pattern d)"
  unfolding default_dynamic_charset_def p_def
  by auto
















subsection \<open>The line-oriented write\<close>





















subsection \<open>The glyph cache invariant\<close>

lemma slot_free_iff: "(m AND push_bit k 1 = 0) \<longleftrightarrow> \<not> bit (m::int) k"
  by (simp add: push_bit_of_1 and_exp_eq_0_iff_not_bit)



lemma bit_255: "bit (255::int) j \<longleftrightarrow> j < 8"
proof -
  have e: "(255::int) = mask 8" by (simp add: mask_eq_exp_minus_1)
  show ?thesis unfolding e bit_mask_iff by simp
qed

lemma mask_full_iff:
  assumes "\<forall>j. bit (m::int) j \<longrightarrow> j < 8"
  shows "m = 255 \<longleftrightarrow> (\<forall>j<8. bit m j)"
proof
  assume "m = 255" then show "\<forall>j<8. bit m j" by (simp add: bit_255)
next
  assume "\<forall>j<8. bit m j"
  then have "bit m j = bit (255::int) j" for j using assms by (auto simp: bit_255)
  then show "m = 255" by (rule bit_eqI)
qed








lemma first_free_None:
  "first_free s [0..<8] = None \<longleftrightarrow> (\<forall>j<8. bit (dyn_used_mask s) j)"
  unfolding first_free_def find_None_iff by auto






















end
